theory Spec2Isabelle
  imports Main "HOL-Library.Word" "HOL-Library.Signed_Division"
begin

unbundle bit_operations_syntax

section \<open>MinMaxVal (be/src/runtime/minmax-value.h)\<close>

text \<open>
  The struct \<^verbatim>\<open>MinMaxVal<numtype>\<close> has the two fields \<^verbatim>\<open>min\<close> and \<^verbatim>\<open>max\<close>
  (suffixed here, since both names are HOL constants).
\<close>

record 'a MinMaxVal =
  min_fld :: 'a
  max_fld :: 'a

text \<open>
  The constructor \<^verbatim>\<open>MinMaxVal(numtype min = 0, numtype max = 0) : min(min), max(max)\<close>:
  in a member initialiser the name before the parenthesis is the member and the name inside
  is the parameter.
\<close>

definition MinMaxVal_ctor :: "'a \<Rightarrow> 'a \<Rightarrow> 'a MinMaxVal" where
  "MinMaxVal_ctor min_arg max_arg = \<lparr>min_fld = min_arg, max_fld = max_arg\<rparr>"

definition MinMaxVal_default :: "'a::zero MinMaxVal" where
  "MinMaxVal_default = MinMaxVal_ctor 0 0"

text \<open>
  A call of a setter runs in a frame holding the object (\<^verbatim>\<open>*this\<close>) and the parameters.
  Inside the body the unqualified names \<^verbatim>\<open>min\<close> and \<^verbatim>\<open>max\<close> are the parameters,
  which shadow the members: \<^verbatim>\<open>min = min;\<close> reads the parameter and writes the parameter.
\<close>

record 'a setter_frame =
  this_obj :: "'a MinMaxVal"
  min_param :: 'a
  max_param :: 'a

text \<open>\<^verbatim>\<open>void SetMin(numtype min) { min = min; }\<close>\<close>

definition SetMin :: "'a MinMaxVal \<Rightarrow> 'a \<Rightarrow> 'a MinMaxVal" where
  "SetMin self min_arg =
     (let f = \<lparr>this_obj = self, min_param = min_arg, max_param = max_fld self\<rparr>;
          f = f\<lparr>min_param := min_param f\<rparr>
      in this_obj f)"

text \<open>\<^verbatim>\<open>void SetMax(numtype max) { max = max; }\<close>\<close>

definition SetMax :: "'a MinMaxVal \<Rightarrow> 'a \<Rightarrow> 'a MinMaxVal" where
  "SetMax self max_arg =
     (let f = \<lparr>this_obj = self, min_param = min_fld self, max_param = max_arg\<rparr>;
          f = f\<lparr>max_param := max_param f\<rparr>
      in this_obj f)"

text \<open>\<^verbatim>\<open>void SetMinMax(numtype min, numtype max) { min = min; max = max; }\<close>\<close>

definition SetMinMax :: "'a MinMaxVal \<Rightarrow> 'a \<Rightarrow> 'a \<Rightarrow> 'a MinMaxVal" where
  "SetMinMax self min_arg max_arg =
     (let f = \<lparr>this_obj = self, min_param = min_arg, max_param = max_arg\<rparr>;
          f = f\<lparr>min_param := min_param f\<rparr>;
          f = f\<lparr>max_param := max_param f\<rparr>
      in this_obj f)"

text \<open>
  \<^verbatim>\<open>operator=\<close>: copies both fields of the other object (the self-assignment test only
  skips a copy that would change nothing).
\<close>

definition MinMaxVal_assign :: "'a MinMaxVal \<Rightarrow> 'a MinMaxVal \<Rightarrow> 'a MinMaxVal" where
  "MinMaxVal_assign self other =
     (if other = self then self
      else self\<lparr>min_fld := min_fld other, max_fld := max_fld other\<rparr>)"

text \<open>A sequence of setter calls on one object.\<close>

datatype 'a setter_call = CallSetMin 'a | CallSetMax 'a | CallSetMinMax 'a 'a

fun run_setter :: "'a MinMaxVal \<Rightarrow> 'a setter_call \<Rightarrow> 'a MinMaxVal" where
  "run_setter m (CallSetMin v) = SetMin m v"
| "run_setter m (CallSetMax v) = SetMax m v"
| "run_setter m (CallSetMinMax v w) = SetMinMax m v w"

definition run_setters :: "'a MinMaxVal \<Rightarrow> 'a setter_call list \<Rightarrow> 'a MinMaxVal" where
  "run_setters m cs = foldl run_setter m cs"

section \<open>Runtime filters (HdfsParquetScanner::EvalRuntimeFilters)\<close>

text \<open>
  \<^verbatim>\<open>const int ROWS_PER_FILTER_SELECTIVITY_CHECK = 16 * 1024;\<close>
\<close>

definition ROWS_PER_FILTER_SELECTIVITY_CHECK :: int where
  "ROWS_PER_FILTER_SELECTIVITY_CHECK = 16 * 1024"

text \<open>
  Modelled from the spec: the struct \<^verbatim>\<open>LocalFilterStats\<close> is declared in the scanner's
  header, which is not among the sources; the spec gives it as "per filter, maintain counters
  {total_possible, considered, rejected} and a boolean enabled". The counters are 64-bit
  and are modelled as unbounded integers: they count rows and do not wrap in any run that
  can be carried out.
\<close>

record LocalFilterStats =
  considered :: int
  rejected :: int
  total_possible :: int
  enabled :: bool

text \<open>
  What the scanner uses of one entry of \<^verbatim>\<open>filter_ctxs_\<close>: the filter's
  \<^verbatim>\<open>AlwaysTrue()\<close> and the outcome of \<^verbatim>\<open>filter->Eval(expr->GetValue(row), type)\<close>
  as a function of the row. Both belong to the runtime-filter and expression
  code outside the scanner.
\<close>

record 'row FilterContext =
  AlwaysTrue :: bool
  Eval :: "'row \<Rightarrow> bool"

text \<open>
  The body of the loop of \<^verbatim>\<open>EvalRuntimeFilters\<close> for one filter. The result
  is \<open>False\<close> where the source executes \<^verbatim>\<open>return false\<close> and \<open>True\<close> where it goes on
  to the next filter (by \<^verbatim>\<open>continue\<close> or by reaching the end of the body).

  The test \<^verbatim>\<open>rejected / static_cast<double>(considered) < FLAGS_parquet_min_filter_reject_ratio\<close>
  is a computation in IEEE doubles; it is the parameter \<open>below\<close>, a function of the two
  counters.
\<close>

definition filter_step ::
  "(int \<Rightarrow> int \<Rightarrow> bool) \<Rightarrow> 'row FilterContext \<Rightarrow> 'row \<Rightarrow> LocalFilterStats
     \<Rightarrow> bool \<times> LocalFilterStats" where
  "filter_step below ctx row stats =
     (if \<not> enabled stats then (True, stats)
      else
        let stats = stats\<lparr>total_possible := total_possible stats + 1\<rparr> in
        if (total_possible stats AND (ROWS_PER_FILTER_SELECTIVITY_CHECK - 1)) = 0
           \<and> (AlwaysTrue ctx \<or> below (rejected stats) (considered stats))
        then (True, stats\<lparr>enabled := False\<rparr>)
        else
          let stats = stats\<lparr>considered := considered stats + 1\<rparr> in
          if \<not> Eval ctx row then (False, stats\<lparr>rejected := rejected stats + 1\<rparr>)
          else (True, stats))"

text \<open>
  \<^verbatim>\<open>for (int i = 0; i < num_filters; ++i)\<close> over the parallel vectors
  \<^verbatim>\<open>filter_ctxs_\<close> and \<^verbatim>\<open>filter_stats_\<close> (the latter is resized to the length of
  the former when the scanner is prepared), from index \<open>i\<close> on.
\<close>

function EvalRuntimeFilters_from ::
  "(int \<Rightarrow> int \<Rightarrow> bool) \<Rightarrow> 'row FilterContext list \<Rightarrow> 'row \<Rightarrow> nat
     \<Rightarrow> LocalFilterStats list \<Rightarrow> bool \<times> LocalFilterStats list" where
  "EvalRuntimeFilters_from below ctxs row i stats =
     (if i < length ctxs then
        (case filter_step below (ctxs ! i) row (stats ! i) of
           (False, s) \<Rightarrow> (False, stats[i := s])
         | (True, s) \<Rightarrow> EvalRuntimeFilters_from below ctxs row (i + 1) (stats[i := s]))
      else (True, stats))"
  by pat_completeness auto
termination
  by (relation "measure (\<lambda>(below, ctxs, row, i, stats). length ctxs - i)") auto

definition EvalRuntimeFilters ::
  "(int \<Rightarrow> int \<Rightarrow> bool) \<Rightarrow> 'row FilterContext list \<Rightarrow> 'row
     \<Rightarrow> LocalFilterStats list \<Rightarrow> bool \<times> LocalFilterStats list" where
  "EvalRuntimeFilters below ctxs row stats = EvalRuntimeFilters_from below ctxs row 0 stats"



section \<open>Transfer of scratch tuples (HdfsParquetScanner::TransferScratchTuples)\<close>

text \<open>
  \<^verbatim>\<open>struct ScratchTupleBatch\<close>: \<^verbatim>\<open>tuple_mem\<close> is the buffer of tuples, here the
  list of the tuples it holds (a tuple of \<^verbatim>\<open>tuple_byte_size\<close> bytes is a value of
  \<open>'row\<close>); \<^verbatim>\<open>tuple_idx\<close>, \<^verbatim>\<open>num_tuples\<close> and \<^verbatim>\<open>tuple_byte_size\<close> are C++ ints.
\<close>

record 'row ScratchTupleBatch =
  tuple_mem :: "'row list"
  tuple_idx :: int
  num_tuples :: int
  tuple_byte_size :: int

text \<open>
  The tuples between the pointers \<^verbatim>\<open>CurrTuple()\<close> (\<^verbatim>\<open>tuple_mem + tuple_idx * tuple_byte_size\<close>)
  and \<^verbatim>\<open>TupleEnd()\<close> (\<^verbatim>\<open>tuple_mem + num_tuples * tuple_byte_size\<close>).
\<close>

definition scratch_range :: "'row ScratchTupleBatch \<Rightarrow> 'row list" where
  "scratch_range sb = drop (nat (tuple_idx sb)) (take (nat (num_tuples sb)) (tuple_mem sb))"

definition AtEnd :: "'row ScratchTupleBatch \<Rightarrow> bool" where
  "AtEnd sb \<longleftrightarrow> tuple_idx sb = num_tuples sb"

text \<open>
  The members of the scanner that \<^verbatim>\<open>TransferScratchTuples\<close> reads and writes:
  the runtime filters and their statistics, the conjuncts (each a predicate on the row;
  \<^verbatim>\<open>ExecNode::EvalConjuncts\<close> is true when all of them are), the output batch
  \<^verbatim>\<open>batch_\<close> with its \<^verbatim>\<open>num_rows()\<close> and \<^verbatim>\<open>capacity()\<close>, and the scratch batch.
\<close>

record 'row scanner =
  filter_ctxs :: "'row FilterContext list"
  filter_stats :: "LocalFilterStats list"
  scanner_conjunct_ctxs :: "('row \<Rightarrow> bool) list"
  batch_num_rows :: int
  batch_capacity :: int
  scratch_batch :: "'row ScratchTupleBatch"

definition EvalConjuncts :: "('row \<Rightarrow> bool) list \<Rightarrow> 'row \<Rightarrow> bool" where
  "EvalConjuncts ctxs row = list_all (\<lambda>c. c row) ctxs"

text \<open>
  The loop \<^verbatim>\<open>while (scratch_tuple != scratch_tuple_end)\<close>. Arguments: \<open>room\<close> is
  \<^verbatim>\<open>output_row_end - output_row_start\<close>; the list is the scratch tuples from
  \<^verbatim>\<open>scratch_tuple\<close> to \<^verbatim>\<open>scratch_tuple_end\<close>; \<open>out\<close> holds the rows from
  \<^verbatim>\<open>output_row_start\<close> up to \<^verbatim>\<open>output_row\<close>; \<open>consumed\<close> is
  \<^verbatim>\<open>(scratch_tuple - scratch_tuple_start) / tuple_size\<close>. The source writes each
  tuple to \<^verbatim>\<open>*output_row\<close> before it evaluates it and advances \<^verbatim>\<open>output_row\<close>
  only for a survivor; the loop is left by \<^verbatim>\<open>break\<close> when \<^verbatim>\<open>output_row\<close> is
  equal to \<^verbatim>\<open>output_row_end\<close>.
\<close>

fun transfer_loop ::
  "(int \<Rightarrow> int \<Rightarrow> bool) \<Rightarrow> 'row FilterContext list \<Rightarrow> ('row \<Rightarrow> bool) list \<Rightarrow> int
     \<Rightarrow> 'row list \<Rightarrow> LocalFilterStats list \<Rightarrow> 'row list \<Rightarrow> int
     \<Rightarrow> LocalFilterStats list \<times> 'row list \<times> int" where
  "transfer_loop below fctxs cctxs room [] stats out consumed = (stats, out, consumed)"
| "transfer_loop below fctxs cctxs room (t # ts) stats out consumed =
     (case (if fctxs \<noteq> [] then EvalRuntimeFilters below fctxs t stats else (True, stats)) of
        (pass, stats') \<Rightarrow>
          if \<not> pass then transfer_loop below fctxs cctxs room ts stats' out (consumed + 1)
          else if cctxs \<noteq> [] \<and> \<not> EvalConjuncts cctxs t
          then transfer_loop below fctxs cctxs room ts stats' out (consumed + 1)
          else if int (length (out @ [t])) = room then (stats', out @ [t], consumed + 1)
          else transfer_loop below fctxs cctxs room ts stats' (out @ [t]) (consumed + 1))"

text \<open>
  \<^verbatim>\<open>int HdfsParquetScanner::TransferScratchTuples()\<close>. The result is the returned
  number of rows, the tuple pointers written to the output batch from row
  \<^verbatim>\<open>num_rows()\<close> on (\<open>None\<close> is the NULL pointer that \<^verbatim>\<open>memset\<close> writes), and the
  scanner afterwards. The number of rows of the output batch itself is only changed by the
  caller's \<^verbatim>\<open>CommitRows\<close>.
\<close>

definition TransferScratchTuples ::
  "(int \<Rightarrow> int \<Rightarrow> bool) \<Rightarrow> 'row scanner \<Rightarrow> int \<times> 'row option list \<times> 'row scanner" where
  "TransferScratchTuples below S =
     (let sb = scratch_batch S;
          room = batch_capacity S - batch_num_rows S
      in if tuple_byte_size sb = 0 then
           (let n = min room (num_tuples sb - tuple_idx sb)
            in (n, replicate (nat n) None,
                S\<lparr>scratch_batch := sb\<lparr>tuple_idx := tuple_idx sb + n\<rparr>\<rparr>))
         else
           (case transfer_loop below (filter_ctxs S) (scanner_conjunct_ctxs S) room
                   (scratch_range sb) (filter_stats S) [] 0 of
              (stats', out, consumed) \<Rightarrow>
                (int (length out), map Some out,
                 S\<lparr>filter_stats := stats',
                   scratch_batch := sb\<lparr>tuple_idx := tuple_idx sb + consumed\<rparr>\<rparr>)))"

definition C9_wit_scanner :: "nat scanner" where
  "C9_wit_scanner =
     \<lparr>filter_ctxs = [], filter_stats = [], scanner_conjunct_ctxs = [\<lambda>r. r \<noteq> 2],
      batch_num_rows = 1, batch_capacity = 3,
      scratch_batch = \<lparr>tuple_mem = [1, 2, 3, 4, 5], tuple_idx = 0, num_tuples = 5,
                       tuple_byte_size = 8\<rparr>\<rparr>"

section \<open>FileVersion (HdfsParquetScanner::FileVersion)\<close>

text \<open>
  The C library's \<^verbatim>\<open>tolower\<close> in the "C" locale: the letters A to Z are mapped to a to z,
  every other byte is left as it is.
\<close>

definition tolower :: "char \<Rightarrow> char" where
  "tolower c = (let n = (of_char c :: nat) in if 65 \<le> n \<and> n \<le> 90 then char_of (n + 32) else c)"









text \<open>
  \<^verbatim>\<open>struct FileVersion { string application; struct { int major, minor, patch; } version;
  bool is_impala_internal; }\<close>
\<close>

record FileVersion =
  application :: string
  version_major :: int
  version_minor :: int
  version_patch :: int
  is_impala_internal :: bool

text \<open>The characters of \<^verbatim>\<open>find_first_not_of("0123456789.")\<close>.\<close>

definition version_char :: "char \<Rightarrow> bool" where
  "version_char c \<longleftrightarrow> c \<in> set ''0123456789.''"



definition VersionLt :: "FileVersion \<Rightarrow> int \<Rightarrow> int \<Rightarrow> int \<Rightarrow> bool" where
  "VersionLt v major minor patch =
     (if version_major v < major then True
      else if version_major v > major then False
      else if version_minor v < minor then True
      else if version_minor v > minor then False
      else version_patch v < patch)"


section \<open>Dictionary pages in BaseScalarColumnReader::ReadDataPage\<close>


text \<open>
  The Thrift types of the page header, as far as the dictionary branch reads them. An
  optional Thrift field with its \<^verbatim>\<open>__isset\<close> flag is an \<open>option\<close>.
\<close>

datatype Encoding = PLAIN | PLAIN_DICTIONARY | RLE | BIT_PACKED | OTHER_ENCODING

datatype PageType = DATA_PAGE | INDEX_PAGE | DICTIONARY_PAGE | DATA_PAGE_V2











section \<open>CHAR slots (ScalarColumnReader<StringValue, true>::ConvertSlot)\<close>

text \<open>
  A \<^verbatim>\<open>StringValue\<close> is a pointer and a length; its value is the string of the
  \<^verbatim>\<open>len\<close> bytes at \<^verbatim>\<open>ptr\<close>. A buffer is the list of its bytes.

  \<^verbatim>\<open>memcpy(dst, src, n)\<close> on buffers of at least \<open>n\<close> bytes: the first \<open>n\<close> bytes
  of the destination are replaced.
\<close>

definition memcpy :: "string \<Rightarrow> string \<Rightarrow> nat \<Rightarrow> string" where
  "memcpy dst src n = take n src @ drop n dst"

text \<open>
  Modelled from the spec: \<^verbatim>\<open>StringValue::PadWithSpaces(cptr, cptr_len, num_chars)\<close>
  is defined with the string values, outside the sources at hand; the spec has it as "pad
  on the right with ASCII space up to declared length": the bytes from \<open>num_chars\<close> up to
  \<open>cptr_len\<close> are set to the space character.
\<close>

definition PadWithSpaces :: "string \<Rightarrow> nat \<Rightarrow> nat \<Rightarrow> string" where
  "PadWithSpaces cptr cptr_len num_chars =
     take num_chars cptr @ replicate (cptr_len - num_chars) CHR '' '' @ drop cptr_len cptr"

text \<open>
  \<^verbatim>\<open>ConvertSlot(const StringValue* src, StringValue* dst, MemPool* pool)\<close> for a slot
  of type CHAR(\<open>len\<close>); the type makes \<open>len\<close> a positive number. Arguments:
  \<^item> \<open>len\<close>: \<^verbatim>\<open>slot_desc()->type().len\<close>;
  \<^item> \<open>var_len\<close>: \<^verbatim>\<open>slot_desc()->type().IsVarLenStringType()\<close>;
  \<^item> \<open>alloc\<close>: the result of \<^verbatim>\<open>pool->TryAllocate(len)\<close>: \<open>None\<close> for NULL,
    otherwise the byte that the fresh buffer happens to hold at each offset;
  \<^item> \<open>slot\<close>: the byte at each offset of \<^verbatim>\<open>dst\<close>, where a CHAR that is stored
    inline has its \<open>len\<close> bytes;
  \<^item> \<open>src\<close>: the bytes of the source value (\<^verbatim>\<open>src->len\<close> is their number).
  The result is \<open>None\<close> where the source returns false (the allocation failed and the
  parse status is set to a memory-limit error), and otherwise the string that the slot
  holds afterwards: \<^verbatim>\<open>sv\<close> with \<^verbatim>\<open>sv.len = len\<close>, or the \<open>len\<close> bytes written
  in place.
\<close>

definition ConvertSlot ::
  "nat \<Rightarrow> bool \<Rightarrow> (nat \<Rightarrow> char) option \<Rightarrow> (nat \<Rightarrow> char) \<Rightarrow> string \<Rightarrow> string option" where
  "ConvertSlot len var_len alloc slot src =
     (case (if var_len then alloc else Some slot) of
        None \<Rightarrow> None
      | Some mem \<Rightarrow>
          (let buf = map mem [0..<len];
               unpadded_len = min len (length src);
               buf = memcpy buf src unpadded_len;
               buf = PadWithSpaces buf len unpadded_len
           in Some (take len buf)))"

section \<open>Row-group selection (HdfsParquetScanner::ProcessSplit)\<close>

text \<open>
  The fields of \<^verbatim>\<open>parquet::ColumnMetaData\<close> and \<^verbatim>\<open>parquet::RowGroup\<close> that the
  selection reads. Offsets and sizes are 64-bit signed integers in the file metadata; they
  are modelled as unbounded integers (signed overflow is undefined in the source).
  \<open>columns\<close> holds \<^verbatim>\<open>columns[i].meta_data\<close>.
\<close>

record ColumnMetaData =
  data_page_offset :: int
  dictionary_page_offset :: "int option"
  total_compressed_size :: int

record RowGroup =
  columns :: "ColumnMetaData list"
  num_rows :: int

datatype scan_error =
    ColumnMetadataInvalid
  | OutOfRangeAccess
  | ScanError

datatype status = OK | Error scan_error

text \<open>\<^verbatim>\<open>static int64_t GetColumnStartOffset(const parquet::ColumnMetaData& column)\<close>\<close>

definition GetColumnStartOffset :: "ColumnMetaData \<Rightarrow> int" where
  "GetColumnStartOffset column =
     (case dictionary_page_offset column of
        Some off \<Rightarrow> off
      | None \<Rightarrow> data_page_offset column)"

text \<open>
  \<^verbatim>\<open>static int64_t GetRowGroupMidOffset(const parquet::RowGroup& row_group)\<close>.
  The source indexes \<^verbatim>\<open>row_group.columns[0]\<close> and
  \<^verbatim>\<open>row_group.columns[columns.size() - 1]\<close>; on a row group without columns that is an
  access out of range, here \<open>None\<close>. The division of C++ truncates towards zero.
\<close>

definition GetRowGroupMidOffset :: "RowGroup \<Rightarrow> int option" where
  "GetRowGroupMidOffset row_group =
     (if columns row_group = [] then None
      else
        let start_offset = GetColumnStartOffset (columns row_group ! 0);
            last_column = columns row_group ! (length (columns row_group) - 1);
            end_offset = GetColumnStartOffset last_column + total_compressed_size last_column
        in Some (start_offset + (end_offset - start_offset) sdiv 2))"






text \<open>
  The property of the spec: the mid-byte-offset of the row group lies in
  \<open>[split_offset, split_offset + split_length)\<close>.
\<close>

definition mid_in_split :: "int \<Rightarrow> int \<Rightarrow> RowGroup \<Rightarrow> bool" where
  "mid_in_split split_offset split_length row_group =
     (case GetRowGroupMidOffset row_group of
        None \<Rightarrow> False
      | Some mid \<Rightarrow> split_offset \<le> mid \<and> mid < split_offset + split_length)"

text \<open>The row groups that a run of the loop to its end goes past the selection test for.\<close>

definition selected_indices :: "int \<Rightarrow> int \<Rightarrow> nat \<Rightarrow> RowGroup list \<Rightarrow> nat list" where
  "selected_indices split_offset split_length i row_groups =
     map fst (filter (\<lambda>(j, rg). num_rows rg \<noteq> 0 \<and> mid_in_split split_offset split_length rg)
                (enumerate i row_groups))"



section \<open>End of a row group (HdfsParquetScanner::ValidateEndOfRowGroup)\<close>










section \<open>Schema resolution (HdfsParquetScanner::ResolvePath)\<close>

datatype ArrayEncoding = ONE_LEVEL | TWO_LEVEL | THREE_LEVEL

text \<open>A \<^verbatim>\<open>Status\<close> is OK or an error with its message.\<close>

datatype 'e Status = Status_OK | Status_Error 'e

definition ok :: "'e Status \<Rightarrow> bool" where
  "ok st \<longleftrightarrow> st = Status_OK"

text \<open>
  What a call of \<^verbatim>\<open>ResolvePathHelper(array_encoding, path, node, pos_field, missing_field)\<close>
  or of \<^verbatim>\<open>ResolvePath(path, node, pos_field, missing_field)\<close> leaves behind: the
  returned status and the three out-parameters (\<open>None\<close> is the NULL node).
\<close>

record ('node, 'e) resolution =
  status :: "'e Status"
  node :: "'node option"
  pos_field :: bool
  missing_field :: bool

text \<open>
  \<^verbatim>\<open>Status ResolvePath(const SchemaPath& path, SchemaNode** node, bool* pos_field,
  bool* missing_field)\<close>. The parameter \<open>helper\<close> is \<^verbatim>\<open>ResolvePathHelper\<close> on the
  path and the schema at hand, as a function of the array encoding; it assigns all three
  out-parameters on every call, so after each call \<^verbatim>\<open>*node\<close> and \<^verbatim>\<open>*pos_field\<close>
  are those of the latest call, while its \<^verbatim>\<open>missing_field\<close> goes to a local variable.
  The \<^verbatim>\<open>DCHECK\<close>s of the source state that a helper that reports a missing field
  returns OK; they do not change the result.
\<close>

definition ResolvePath ::
  "(ArrayEncoding \<Rightarrow> ('node, 'e) resolution) \<Rightarrow> ('node, 'e) resolution" where
  "ResolvePath helper =
     (let two = helper TWO_LEVEL in
      if ok (status two) \<and> \<not> missing_field two
      then \<lparr>status = Status_OK, node = node two, pos_field = pos_field two,
            missing_field = False\<rparr>
      else
        let three = helper THREE_LEVEL in
        if ok (status three) \<and> \<not> missing_field three
        then \<lparr>status = Status_OK, node = node three, pos_field = pos_field three,
              missing_field = False\<rparr>
        else
          let one = helper ONE_LEVEL in
          if ok (status one) \<and> \<not> missing_field one
          then \<lparr>status = Status_OK, node = node one, pos_field = pos_field one,
                missing_field = False\<rparr>
          else if missing_field one \<or> missing_field two \<or> missing_field three
          then \<lparr>status = Status_OK, node = None, pos_field = pos_field one,
                missing_field = True\<rparr>
          else \<lparr>status = status three, node = None, pos_field = pos_field one,
                missing_field = False\<rparr>)"

text \<open>
  The words of the spec: a convention succeeds when it yields a node without reporting a
  missing field; the conventions are tried in the order two-level, three-level, one-level.
\<close>

definition succeeds :: "('node, 'e) resolution \<Rightarrow> bool" where
  "succeeds r \<longleftrightarrow> ok (status r) \<and> \<not> missing_field r"

definition conventions :: "ArrayEncoding list" where
  "conventions = [TWO_LEVEL, THREE_LEVEL, ONE_LEVEL]"

text \<open>
  Three helpers for the examples. In the first the two-level convention fails with an
  error, the three-level one yields node 7 and the one-level one would yield node 9; in the
  second all three fail with an error; in the third the three-level one reports a missing
  field and the others fail.
\<close>

definition C6_helper :: "ArrayEncoding \<Rightarrow> (nat, string) resolution" where
  "C6_helper enc =
     (case enc of
        TWO_LEVEL \<Rightarrow> \<lparr>status = Status_Error ''two'', node = Some 1, pos_field = False,
                      missing_field = False\<rparr>
      | THREE_LEVEL \<Rightarrow> \<lparr>status = Status_OK, node = Some 7, pos_field = False,
                        missing_field = False\<rparr>
      | ONE_LEVEL \<Rightarrow> \<lparr>status = Status_OK, node = Some 9, pos_field = False,
                      missing_field = False\<rparr>)"

definition C6_failing :: "ArrayEncoding \<Rightarrow> (nat, string) resolution" where
  "C6_failing enc =
     (case enc of
        TWO_LEVEL \<Rightarrow> \<lparr>status = Status_Error ''two'', node = Some 1, pos_field = False,
                      missing_field = False\<rparr>
      | THREE_LEVEL \<Rightarrow> \<lparr>status = Status_Error ''three'', node = Some 2, pos_field = False,
                        missing_field = False\<rparr>
      | ONE_LEVEL \<Rightarrow> \<lparr>status = Status_Error ''one'', node = Some 3, pos_field = False,
                      missing_field = False\<rparr>)"

definition C6_missing :: "ArrayEncoding \<Rightarrow> (nat, string) resolution" where
  "C6_missing enc =
     (case enc of
        TWO_LEVEL \<Rightarrow> \<lparr>status = Status_Error ''two'', node = Some 1, pos_field = False,
                      missing_field = False\<rparr>
      | THREE_LEVEL \<Rightarrow> \<lparr>status = Status_OK, node = None, pos_field = False,
                        missing_field = True\<rparr>
      | ONE_LEVEL \<Rightarrow> \<lparr>status = Status_Error ''one'', node = Some 3, pos_field = False,
                      missing_field = False\<rparr>)"

section \<open>Level decoding (HdfsParquetScanner::LevelDecoder)\<close>

text \<open>
  \<^verbatim>\<open>LevelDecoder\<close> inherits from \<^verbatim>\<open>RleDecoder\<close>, whose class is not among the sources;
  the members that \<^verbatim>\<open>FillCache\<close> reads and writes are the bit reader, the bit width,
  the value of the current repeated run and the numbers of repeated and literal values
  left in the current run. Counts, levels and indices are natural numbers here; the type
  \<open>'br\<close> is the state of the bit reader.
\<close>

record 'br RleDecoder =
  bit_reader :: 'br
  bit_width :: nat
  current_value :: nat
  repeat_count :: nat
  literal_count :: nat

text \<open>
  The operations of \<^verbatim>\<open>BitReader\<close> and \<^verbatim>\<open>RleDecoder\<close> that the level decoder calls
  are parameters:
  \<^item> \<open>GetValue n br\<close>: \<^verbatim>\<open>bit_reader_.GetValue(n, &v)\<close> with \<open>v\<close> a byte; \<open>None\<close> when
    it returns false (the stream has too few bits left), otherwise the byte and the
    reader afterwards;
  \<^item> \<open>NextCounts r\<close>: \<^verbatim>\<open>NextCounts<int16_t>()\<close>, which reads the header of the next
    run; \<open>None\<close> when it returns false;
  \<^item> \<open>Get r\<close>: \<^verbatim>\<open>Get(&level)\<close>, the next value of the run-length decoder as a byte;
    \<open>None\<close> when it returns false.
\<close>

record 'br decoder_ops =
  GetValue :: "nat \<Rightarrow> 'br \<Rightarrow> (nat \<times> 'br) option"
  NextCounts :: "'br RleDecoder \<Rightarrow> 'br RleDecoder option"
  Get :: "'br RleDecoder \<Rightarrow> (nat \<times> 'br RleDecoder) option"

text \<open>
  The members of \<^verbatim>\<open>LevelDecoder\<close> itself. \<open>cached_levels\<close> is the buffer of
  \<^verbatim>\<open>cache_size_\<close> bytes, which \<^verbatim>\<open>InitCache\<close> fills with zeros when it allocates it.
\<close>

record 'br LevelDecoder =
  rle :: "'br RleDecoder"
  cached_levels :: "nat list"
  num_cached_levels :: nat
  cached_level_idx :: nat
  encoding :: Encoding
  max_level :: nat

definition INVALID_LEVEL :: int where
  "INVALID_LEVEL = - 1"

text \<open>
  \<^verbatim>\<open>inline int16_t ReadLevel()\<close>: the next level, or \<^verbatim>\<open>INVALID_LEVEL\<close> when the
  decoder has no value. The level is returned as it was decoded.
\<close>

definition ReadLevel :: "'br decoder_ops \<Rightarrow> 'br LevelDecoder \<Rightarrow> int \<times> 'br LevelDecoder" where
  "ReadLevel ops d =
     (if encoding d = RLE then
        (case Get ops (rle d) of
           Some (level, r) \<Rightarrow> (int level, d\<lparr>rle := r\<rparr>)
         | None \<Rightarrow> (INVALID_LEVEL, d))
      else
        (case GetValue ops 1 (bit_reader (rle d)) of
           Some (level, br) \<Rightarrow> (int level, d\<lparr>rle := (rle d)\<lparr>bit_reader := br\<rparr>\<rparr>)
         | None \<Rightarrow> (INVALID_LEVEL, d)))"

text \<open>
  \<^verbatim>\<open>memset(cached_levels_ + start, value, n)\<close>: \<open>n\<close> bytes from \<open>start\<close> on are set to
  the value converted to a byte.
\<close>

definition memset_levels :: "nat list \<Rightarrow> nat \<Rightarrow> nat \<Rightarrow> nat \<Rightarrow> nat list" where
  "memset_levels cache start v n =
     take start cache @ replicate n (v mod 256) @ drop (start + n) cache"

text \<open>
  The loop \<^verbatim>\<open>for (; num_values < num_values_end; ++num_values)\<close> of \<^verbatim>\<open>FillCache\<close>,
  which reads one value of \<open>width\<close> bits into \<^verbatim>\<open>cached_levels_[num_values]\<close> and
  returns false (here \<open>None\<close>) when the read fails or the value is above the maximum.
\<close>

function read_levels ::
  "'br decoder_ops \<Rightarrow> nat \<Rightarrow> nat \<Rightarrow> nat \<Rightarrow> nat \<Rightarrow> nat list \<Rightarrow> 'br \<Rightarrow> (nat list \<times> 'br) option" where
  "read_levels ops max_lvl width num_values num_values_end cache br =
     (if num_values < num_values_end then
        (case GetValue ops width br of
           None \<Rightarrow> None
         | Some (v, br') \<Rightarrow>
             if v > max_lvl then None
             else read_levels ops max_lvl width (num_values + 1) num_values_end
                    (cache[num_values := v]) br')
      else Some (cache, br))"
  by pat_completeness auto
termination
  by (relation "measure (\<lambda>(ops, max_lvl, width, num_values, num_values_end, cache, br).
        num_values_end - num_values)") auto

text \<open>
  One pass through the body of the \<^verbatim>\<open>while (true)\<close> loop of \<^verbatim>\<open>FillCache\<close> for
  the RLE encoding, entered with \<open>num_values\<close> levels in the cache. \<open>Inl\<close> leaves the
  function with the boolean it returns, the number of values and the decoder; \<open>Inr\<close> goes
  round the loop again. After the inner loop \<^verbatim>\<open>num_values\<close> is the larger of its old
  value and \<^verbatim>\<open>num_values_end\<close>.
\<close>

definition FillCache_rle_body ::
  "'br decoder_ops \<Rightarrow> nat \<Rightarrow> nat \<Rightarrow> 'br LevelDecoder
     \<Rightarrow> (bool \<times> nat \<times> 'br LevelDecoder) + (nat \<times> 'br LevelDecoder)" where
  "FillCache_rle_body ops batch_size num_values d =
     (let r = rle d;
          num_repeats_to_set = min (repeat_count r) (batch_size - num_values);
          cache = memset_levels (cached_levels d) num_values (current_value r) num_repeats_to_set;
          num_values = num_values + num_repeats_to_set;
          r = r\<lparr>repeat_count := repeat_count r - num_repeats_to_set\<rparr>;
          num_literals_to_set = min (literal_count r) (batch_size - num_values);
          num_values_end = min (num_values + literal_count r) batch_size
      in case read_levels ops (max_level d) (bit_width r) num_values num_values_end cache
                (bit_reader r) of
           None \<Rightarrow> Inl (False, num_values, d)
         | Some (cache, br) \<Rightarrow>
             (let num_values = max num_values num_values_end;
                  r = r\<lparr>bit_reader := br,
                        literal_count := literal_count r - num_literals_to_set\<rparr>;
                  d = d\<lparr>rle := r, cached_levels := cache\<rparr>
              in if num_values = batch_size then Inl (True, num_values, d)
                 else
                   (case NextCounts ops r of
                      None \<Rightarrow> Inl (False, num_values, d)
                    | Some r' \<Rightarrow>
                        if repeat_count r' > 0 \<and> current_value r' > max_level d
                        then Inl (False, num_values, d\<lparr>rle := r'\<rparr>)
                        else Inr (num_values, d\<lparr>rle := r'\<rparr>))))"

text \<open>
  The loop itself. It has no bound of its own: it ends when the batch is full or the
  run-length decoder fails. The result \<open>None\<close> stands for a loop that never ends.
\<close>

partial_function (option) FillCache_rle ::
  "'br decoder_ops \<Rightarrow> nat \<Rightarrow> nat \<Rightarrow> 'br LevelDecoder \<Rightarrow> (bool \<times> nat \<times> 'br LevelDecoder) option" where
  "FillCache_rle ops batch_size num_values d =
     (case FillCache_rle_body ops batch_size num_values d of
        Inl res \<Rightarrow> Some res
      | Inr (num_values', d') \<Rightarrow> FillCache_rle ops batch_size num_values' d')"

declare FillCache_rle.simps [code]

text \<open>
  \<^verbatim>\<open>bool FillCache(int batch_size, int* num_cached_levels)\<close>: the number of cached
  levels is assigned only when the function returns true.
\<close>

definition FillCache ::
  "'br decoder_ops \<Rightarrow> nat \<Rightarrow> 'br LevelDecoder \<Rightarrow> (bool \<times> 'br LevelDecoder) option" where
  "FillCache ops batch_size d =
     (if encoding d = RLE then
        (case FillCache_rle ops batch_size 0 d of
           None \<Rightarrow> None
         | Some (True, n, d') \<Rightarrow> Some (True, d'\<lparr>num_cached_levels := n\<rparr>)
         | Some (False, n, d') \<Rightarrow> Some (False, d'))
      else
        (case read_levels ops (max_level d) 1 0 batch_size (cached_levels d)
                (bit_reader (rle d)) of
           None \<Rightarrow> Some (False, d)
         | Some (cache, br) \<Rightarrow>
             Some (True, d\<lparr>rle := (rle d)\<lparr>bit_reader := br\<rparr>, cached_levels := cache,
                           num_cached_levels := batch_size\<rparr>)))"

text \<open>
  \<^verbatim>\<open>Status CacheNextBatch(int batch_size)\<close>: \<open>Inl\<close> is the decoding error
  (\<^verbatim>\<open>PARQUET_DEF_LEVEL_ERROR\<close> or \<^verbatim>\<open>PARQUET_REP_LEVEL_ERROR\<close>), \<open>Inr\<close> the decoder
  after an OK return.
\<close>

datatype level_error = LevelDecodingError

definition CacheNextBatch ::
  "'br decoder_ops \<Rightarrow> nat \<Rightarrow> 'br LevelDecoder \<Rightarrow> (level_error + 'br LevelDecoder) option" where
  "CacheNextBatch ops batch_size d =
     (let d = d\<lparr>cached_level_idx := 0\<rparr> in
      if max_level d > 0 then
        (case FillCache ops batch_size d of
           None \<Rightarrow> None
         | Some (False, d') \<Rightarrow> Some (Inl LevelDecodingError)
         | Some (True, d') \<Rightarrow> Some (Inr d'))
      else Some (Inr (d\<lparr>num_cached_levels := batch_size\<rparr>)))"

text \<open>\<^verbatim>\<open>inline uint8_t CacheGetNext()\<close>, called with
  \<^verbatim>\<open>cached_level_idx_ < num_cached_levels_\<close>.\<close>

definition CacheGetNext :: "'br LevelDecoder \<Rightarrow> nat \<times> 'br LevelDecoder" where
  "CacheGetNext d =
     (cached_levels d ! cached_level_idx d, d\<lparr>cached_level_idx := cached_level_idx d + 1\<rparr>)"

text \<open>
  The levels in the cache are within the maximum; a repeated run that is still open has a
  value within the maximum.
\<close>

definition cache_in_range :: "'br LevelDecoder \<Rightarrow> nat \<Rightarrow> bool" where
  "cache_in_range d n \<longleftrightarrow> (\<forall>i < n. cached_levels d ! i \<le> max_level d)"

definition run_in_range :: "'br LevelDecoder \<Rightarrow> bool" where
  "run_in_range d \<longleftrightarrow> (repeat_count (rle d) > 0 \<longrightarrow> current_value (rle d) \<le> max_level d)"

text \<open>
  The state in which \<^verbatim>\<open>CacheNextBatch\<close> is called: the batch fits into the cache, an
  open repeated run is within the maximum, and the cache of a decoder without levels
  (\<open>max_level = 0\<close>) still holds the zeros it was allocated with.
\<close>

definition decoder_ready :: "'br LevelDecoder \<Rightarrow> nat \<Rightarrow> bool" where
  "decoder_ready d batch_size \<longleftrightarrow>
     batch_size \<le> length (cached_levels d) \<and> run_in_range d
     \<and> (max_level d = 0 \<longrightarrow> (\<forall>i < length (cached_levels d). cached_levels d ! i = 0))"

text \<open>The invariant of the loop of \<^verbatim>\<open>FillCache\<close>, and what the loop leaves alone.\<close>

definition fill_inv :: "nat \<Rightarrow> nat \<Rightarrow> 'br LevelDecoder \<Rightarrow> bool" where
  "fill_inv batch_size num_values d \<longleftrightarrow>
     num_values \<le> batch_size \<and> batch_size \<le> length (cached_levels d)
     \<and> cache_in_range d num_values \<and> run_in_range d"

definition same_shape :: "'br LevelDecoder \<Rightarrow> 'br LevelDecoder \<Rightarrow> bool" where
  "same_shape d d' \<longleftrightarrow>
     max_level d' = max_level d \<and> encoding d' = encoding d
     \<and> length (cached_levels d') = length (cached_levels d)
     \<and> cached_level_idx d' = cached_level_idx d"

text \<open>
  A small run-length decoder for the examples, on a bit reader that is the list of the
  numbers still to be read: a run is a count followed by its value, a value of \<open>n\<close> bits
  is the next number modulo \<open>2 ^ n\<close>.
\<close>

definition C3_GetValue :: "nat \<Rightarrow> nat list \<Rightarrow> (nat \<times> nat list) option" where
  "C3_GetValue n br = (case br of [] \<Rightarrow> None | v # vs \<Rightarrow> Some (v mod 2 ^ n, vs))"

definition C3_NextCounts :: "nat list RleDecoder \<Rightarrow> nat list RleDecoder option" where
  "C3_NextCounts r =
     (case bit_reader r of
        c # v # rest \<Rightarrow>
          if c = 0 then None
          else Some (r\<lparr>bit_reader := rest, current_value := v, repeat_count := c\<rparr>)
      | _ \<Rightarrow> None)"

definition C3_Get :: "nat list RleDecoder \<Rightarrow> (nat \<times> nat list RleDecoder) option" where
  "C3_Get r =
     (case (if repeat_count r = 0 then C3_NextCounts r else Some r) of
        None \<Rightarrow> None
      | Some r' \<Rightarrow> Some (current_value r' mod 256, r'\<lparr>repeat_count := repeat_count r' - 1\<rparr>))"

definition C3_ops :: "nat list decoder_ops" where
  "C3_ops = \<lparr>GetValue = C3_GetValue, NextCounts = C3_NextCounts, Get = C3_Get\<rparr>"

text \<open>
  A decoder of definition levels with maximum 2 (two bits per level) in front of the
  stream given.
\<close>

definition C3_decoder :: "nat list \<Rightarrow> nat list LevelDecoder" where
  "C3_decoder stream =
     \<lparr>rle = \<lparr>bit_reader = stream, bit_width = 2, current_value = 0, repeat_count = 0,
              literal_count = 0\<rparr>,
      cached_levels = [0, 0, 0, 0], num_cached_levels = 0, cached_level_idx = 0,
      encoding = RLE, max_level = 2\<rparr>"

section \<open>Verified properties\<close>

subsection \<open>MinMaxVal setters\<close>

lemma run_setter_id: "run_setter m c = m"
  by (cases c) (simp_all add: SetMin_def SetMax_def SetMinMax_def Let_def)

lemma run_setters_id: "run_setters m cs = m"
  unfolding run_setters_def by (induction cs) (simp_all add: run_setter_id)

text \<open>
  Claim C10. For every MinMaxVal object and every argument, SetMin, SetMax and SetMinMax
  leave the fields min and max unchanged; hence an object built by the default constructor
  keeps the bounds (0, 0) under any sequence of setter calls, while the constructor and the
  assignment operator do install the bounds they are given.
\<close>

theorem C10_setters_leave_bounds_unchanged:
  "SetMin m v = m \<and> SetMax m v = m \<and> SetMinMax m v w = m
   \<and> min_fld (SetMin m v) = min_fld m \<and> max_fld (SetMax m v) = max_fld m
   \<and> run_setters (MinMaxVal_default :: int MinMaxVal) cs = \<lparr>min_fld = 0, max_fld = 0\<rparr>
   \<and> min_fld (MinMaxVal_ctor a b) = a \<and> max_fld (MinMaxVal_ctor a b) = b
   \<and> MinMaxVal_assign m (MinMaxVal_ctor a b) = MinMaxVal_ctor a b"
  by (simp add: SetMin_def SetMax_def SetMinMax_def Let_def run_setters_id
      MinMaxVal_default_def MinMaxVal_ctor_def MinMaxVal_assign_def)

subsection \<open>Runtime filter selectivity check\<close>





lemma filter_step_mono:
  "enabled (snd (filter_step below ctx row s)) \<Longrightarrow> enabled s"
  by (auto simp: filter_step_def Let_def split: if_splits)



declare EvalRuntimeFilters_from.simps [simp del]














subsection \<open>Transfer of scratch tuples\<close>

lemma transfer_loop_bound:
  "int (length out) < room \<Longrightarrow>
     int (length (fst (snd (transfer_loop below fctxs cctxs room ts stats out consumed)))) \<le> room"
proof (induction ts arbitrary: stats out consumed)
  case Nil
  then show ?case by simp
next
  case (Cons t ts)
  obtain pass stats' where ev:
    "(if fctxs \<noteq> [] then EvalRuntimeFilters below fctxs t stats else (True, stats)) = (pass, stats')"
    by (cases "if fctxs \<noteq> [] then EvalRuntimeFilters below fctxs t stats else (True, stats)")
  show ?case
  proof (cases "\<not> pass \<or> (cctxs \<noteq> [] \<and> \<not> EvalConjuncts cctxs t)")
    case True
    with ev Cons.IH[OF Cons.prems] show ?thesis by auto
  next
    case False
    show ?thesis
    proof (cases "int (length (out @ [t])) = room")
      case True
      with False ev show ?thesis by auto
    next
      case ne: False
      with Cons.prems have "int (length (out @ [t])) < room" by simp
      from Cons.IH[OF this] False ev ne show ?thesis by auto
    qed
  qed
qed

text \<open>
  Claim C9. When TransferScratchTuples is called on an output batch that is not full
  (num_rows < capacity), the number of rows it returns, and the number of tuple pointers it
  leaves in the output batch, is at most capacity - num_rows, in the special case of
  zero-byte tuples as in the filtering loop; so the batch stays within its capacity when the
  caller commits the returned number of rows.
\<close>

theorem C9_transfer_within_capacity:
  "batch_num_rows S < batch_capacity S \<Longrightarrow>
     fst (TransferScratchTuples below S) \<le> batch_capacity S - batch_num_rows S
     \<and> batch_num_rows S + fst (TransferScratchTuples below S) \<le> batch_capacity S
     \<and> int (length (fst (snd (TransferScratchTuples below S))))
          \<le> batch_capacity S - batch_num_rows S"
proof -
  assume lt: "batch_num_rows S < batch_capacity S"
  let ?sb = "scratch_batch S"
  let ?room = "batch_capacity S - batch_num_rows S"
  show ?thesis
  proof (cases "tuple_byte_size ?sb = 0")
    case True
    with lt show ?thesis by (auto simp add: TransferScratchTuples_def Let_def min_def)
  next
    case False
    have "int (length ([]::'a list)) < ?room" using lt by simp
    from transfer_loop_bound[OF this, of below "filter_ctxs S" "scanner_conjunct_ctxs S"
        "scratch_range ?sb" "filter_stats S" 0]
    show ?thesis using False
      by (auto simp add: TransferScratchTuples_def Let_def split: prod.splits)
  qed
qed


theorem C9_witness:
  "batch_num_rows C9_wit_scanner < batch_capacity C9_wit_scanner
   \<and> fst (TransferScratchTuples (\<lambda>r c. False) C9_wit_scanner) = 2
   \<and> fst (snd (TransferScratchTuples (\<lambda>r c. False) C9_wit_scanner)) = [Some 1, Some 3]
   \<and> batch_num_rows C9_wit_scanner + fst (TransferScratchTuples (\<lambda>r c. False) C9_wit_scanner)
        \<le> batch_capacity C9_wit_scanner"
proof -
  have h: "batch_num_rows C9_wit_scanner < batch_capacity C9_wit_scanner"
    by (simp add: C9_wit_scanner_def)
  show ?thesis
    using h C9_transfer_within_capacity[OF h, of "\<lambda>r c. False"]
    by (simp add: C9_wit_scanner_def TransferScratchTuples_def scratch_range_def
        EvalConjuncts_def)
qed

subsection \<open>FileVersion and the dictionary page header\<close>

lemma of_char_tolower:
  "(of_char (tolower c) :: nat) =
     (if 65 \<le> (of_char c :: nat) \<and> (of_char c :: nat) \<le> 90 then of_char c + 32 else of_char c)"
  by (simp add: tolower_def Let_def)

lemma tolower_eq_space [simp]: "tolower c = CHR '' '' \<longleftrightarrow> c = CHR '' ''"
proof -
  have "tolower c = CHR '' '' \<longleftrightarrow> (of_char (tolower c) :: nat) = of_char (CHR '' '')"
    by (simp only: of_char_eq_iff)
  also have "\<dots> \<longleftrightarrow> (of_char c :: nat) = of_char (CHR '' '')"
    by (simp add: of_char_tolower)
  also have "\<dots> \<longleftrightarrow> c = CHR '' ''"
    by (simp only: of_char_eq_iff)
  finally show ?thesis .
qed

lemma version_char_code:
  "version_char c \<longleftrightarrow> (of_char c :: nat) = 46 \<or> (48 \<le> (of_char c :: nat) \<and> (of_char c :: nat) \<le> 57)"
proof -
  have eq: "\<And>d. c = d \<longleftrightarrow> (of_char c :: nat) = of_char d" by (simp only: of_char_eq_iff)
  show ?thesis
    unfolding version_char_def by (simp add: eq) arith
qed

lemma tolower_version_char [simp]: "version_char (tolower c) \<longleftrightarrow> version_char c"
  by (auto simp: version_char_code of_char_tolower)





























subsection \<open>CHAR conversion\<close>

lemma ConvertSlot_None:
  "ConvertSlot len var_len alloc slot src = None \<longleftrightarrow> var_len \<and> alloc = None"
  by (auto simp: ConvertSlot_def Let_def split: option.splits)

lemma ConvertSlot_value:
  assumes "ConvertSlot len var_len alloc slot src = Some v"
  shows "v = take len src @ replicate (len - length src) CHR '' ''"
proof -
  obtain mem where mem: "(if var_len then alloc else Some slot) = Some mem"
    using assms by (auto simp: ConvertSlot_def split: option.splits)
  let ?buf = "map mem [0..<len]"
  have "v = take len (PadWithSpaces (memcpy ?buf src (min len (length src))) len
                        (min len (length src)))"
    using assms mem by (simp add: ConvertSlot_def Let_def)
  also have "\<dots> = take len src @ replicate (len - length src) CHR '' ''"
    by (auto simp: PadWithSpaces_def memcpy_def min_def)
  finally show ?thesis .
qed

text \<open>
  Claim C7. When a source string is converted into a CHAR(n) slot (the conversion fails
  only when the buffer of a CHAR stored out of line cannot be allocated), the value in the
  slot has exactly n bytes: a source shorter than n followed by spaces up to n, the first n
  bytes of a longer source, the source itself when it has n bytes; "ab" gives "ab   " and
  "abcdef" gives "abcde" in a CHAR(5).
\<close>

theorem C7_char_pad_truncate:
  assumes "ConvertSlot n var_len alloc slot src = Some v"
  shows "length v = n
       \<and> (length src < n \<longrightarrow> v = src @ replicate (n - length src) CHR '' '')
       \<and> (n < length src \<longrightarrow> v = take n src)
       \<and> (length src = n \<longrightarrow> v = src)
       \<and> ConvertSlot 5 False alloc slot ''ab'' = Some ''ab   ''
       \<and> ConvertSlot 5 False alloc slot ''abcdef'' = Some ''abcde''
       \<and> (ConvertSlot n var_len' alloc' slot' src' = None \<longleftrightarrow> var_len' \<and> alloc' = None)"
proof -
  have v: "v = take n src @ replicate (n - length src) CHR '' ''"
    by (rule ConvertSlot_value[OF assms])
  have ex: "ConvertSlot 5 False alloc slot ''ab'' = Some ''ab   ''"
      "ConvertSlot 5 False alloc slot ''abcdef'' = Some ''abcde''"
    by (simp_all add: ConvertSlot_def Let_def memcpy_def PadWithSpaces_def eval_nat_numeral)
  show ?thesis using v ex ConvertSlot_None[of n var_len' alloc' slot' src'] by auto
qed

theorem C7_witness:
  "ConvertSlot 5 True (Some (\<lambda>i. CHR ''x'')) (\<lambda>i. CHR ''y'') ''ab'' = Some ''ab   ''
   \<and> length ''ab   '' = 5 \<and> length ''ab'' < 5"
proof -
  have h: "ConvertSlot 5 True (Some (\<lambda>i. CHR ''x'')) (\<lambda>i. CHR ''y'') ''ab'' = Some ''ab   ''"
    by (simp add: ConvertSlot_def Let_def memcpy_def PadWithSpaces_def eval_nat_numeral)
  from C7_char_pad_truncate[OF h] h show ?thesis by simp
qed

subsection \<open>Row-group selection\<close>

lemma selected_indices_Nil [simp]: "selected_indices so sl i [] = []"
  by (simp add: selected_indices_def)










subsection \<open>End-of-group validation\<close>















subsection \<open>Schema path resolution\<close>

lemma ResolvePath_first_success:
  assumes "find (\<lambda>enc. succeeds (helper enc)) conventions = Some enc"
  shows "status (ResolvePath helper) = Status_OK"
    and "node (ResolvePath helper) = node (helper enc)"
    and "pos_field (ResolvePath helper) = pos_field (helper enc)"
    and "\<not> missing_field (ResolvePath helper)"
  using assms
  by (auto simp: ResolvePath_def conventions_def succeeds_def Let_def split: if_splits)

lemma ResolvePath_missing:
  assumes "find (\<lambda>enc. succeeds (helper enc)) conventions = None"
    and "\<exists>enc. missing_field (helper enc)"
  shows "status (ResolvePath helper) = Status_OK"
    and "node (ResolvePath helper) = None"
    and "missing_field (ResolvePath helper)"
proof -
  obtain enc where m: "missing_field (helper enc)" using assms(2) by blast
  then have any: "missing_field (helper ONE_LEVEL) \<or> missing_field (helper TWO_LEVEL)
                  \<or> missing_field (helper THREE_LEVEL)"
    by (cases enc) auto
  have none: "\<not> succeeds (helper TWO_LEVEL)" "\<not> succeeds (helper THREE_LEVEL)"
      "\<not> succeeds (helper ONE_LEVEL)"
    using assms(1) by (auto simp: conventions_def split: if_splits)
  show "status (ResolvePath helper) = Status_OK" "node (ResolvePath helper) = None"
      "missing_field (ResolvePath helper)"
    using none any by (auto simp: ResolvePath_def succeeds_def Let_def)
qed

lemma ResolvePath_all_fail:
  assumes "\<forall>enc. missing_field (helper enc) \<longrightarrow> ok (status (helper enc))"
    and "\<forall>enc. \<not> ok (status (helper enc))"
  shows "status (ResolvePath helper) = status (helper THREE_LEVEL)"
    and "node (ResolvePath helper) = None"
    and "\<not> missing_field (ResolvePath helper)"
    and "\<not> ok (status (ResolvePath helper))"
proof -
  have nm: "\<And>enc. \<not> missing_field (helper enc)" using assms by blast
  show "status (ResolvePath helper) = status (helper THREE_LEVEL)"
      "node (ResolvePath helper) = None" "\<not> missing_field (ResolvePath helper)"
    using nm assms(2) by (simp_all add: ResolvePath_def Let_def)
  then show "\<not> ok (status (ResolvePath helper))" using assms(2) by simp
qed


text \<open>
  Claim C6. ResolvePath tries the array encodings in the order TWO_LEVEL, THREE_LEVEL,
  ONE_LEVEL and returns OK with the node (and position flag) of the first one that resolves
  without reporting a missing field; if none does and at least one reported a missing field,
  it returns OK with missing_field set and no node; if all three fail with an error (a
  helper that reports a missing field returns OK, so none reports one), it returns the
  status of the three-level resolution and no node.
\<close>

theorem C6_ResolvePath_conventions:
  "conventions = [TWO_LEVEL, THREE_LEVEL, ONE_LEVEL]
   \<and> (find (\<lambda>e. succeeds (helper e)) conventions = Some enc \<longrightarrow>
        status (ResolvePath helper) = Status_OK
        \<and> node (ResolvePath helper) = node (helper enc)
        \<and> pos_field (ResolvePath helper) = pos_field (helper enc)
        \<and> \<not> missing_field (ResolvePath helper))
   \<and> (find (\<lambda>e. succeeds (helper e)) conventions = None \<and> (\<exists>e. missing_field (helper e)) \<longrightarrow>
        status (ResolvePath helper) = Status_OK
        \<and> node (ResolvePath helper) = None
        \<and> missing_field (ResolvePath helper))
   \<and> ((\<forall>e. missing_field (helper e) \<longrightarrow> ok (status (helper e)))
        \<and> (\<forall>e. \<not> ok (status (helper e))) \<longrightarrow>
        status (ResolvePath helper) = status (helper THREE_LEVEL)
        \<and> \<not> ok (status (ResolvePath helper))
        \<and> node (ResolvePath helper) = None
        \<and> \<not> missing_field (ResolvePath helper))"
proof (intro conjI impI)
  show "conventions = [TWO_LEVEL, THREE_LEVEL, ONE_LEVEL]" by (simp add: conventions_def)
next
  assume h: "find (\<lambda>e. succeeds (helper e)) conventions = Some enc"
  from ResolvePath_first_success[OF h]
  show "status (ResolvePath helper) = Status_OK"
    "node (ResolvePath helper) = node (helper enc)"
    "pos_field (ResolvePath helper) = pos_field (helper enc)"
    "\<not> missing_field (ResolvePath helper)" by blast+
next
  assume h: "find (\<lambda>e. succeeds (helper e)) conventions = None \<and> (\<exists>e. missing_field (helper e))"
  from ResolvePath_missing[OF conjunct1[OF h] conjunct2[OF h]]
  show "status (ResolvePath helper) = Status_OK" "node (ResolvePath helper) = None"
    "missing_field (ResolvePath helper)" by blast+
next
  assume h: "(\<forall>e. missing_field (helper e) \<longrightarrow> ok (status (helper e)))
        \<and> (\<forall>e. \<not> ok (status (helper e)))"
  from ResolvePath_all_fail[OF conjunct1[OF h] conjunct2[OF h]]
  show "status (ResolvePath helper) = status (helper THREE_LEVEL)"
    "\<not> ok (status (ResolvePath helper))" "node (ResolvePath helper) = None"
    "\<not> missing_field (ResolvePath helper)" by blast+
qed

theorem C6_witness:
  "find (\<lambda>e. succeeds (C6_helper e)) conventions = Some THREE_LEVEL
   \<and> status (ResolvePath C6_helper) = Status_OK
   \<and> node (ResolvePath C6_helper) = Some 7
   \<and> find (\<lambda>e. succeeds (C6_missing e)) conventions = None
   \<and> missing_field (C6_missing THREE_LEVEL)
   \<and> status (ResolvePath C6_missing) = Status_OK
   \<and> node (ResolvePath C6_missing) = None
   \<and> missing_field (ResolvePath C6_missing)
   \<and> list_all (\<lambda>e. \<not> ok (status (C6_failing e)) \<and> \<not> missing_field (C6_failing e)) conventions
   \<and> status (ResolvePath C6_failing) = Status_Error ''three''
   \<and> node (ResolvePath C6_failing) = None"
proof -
  have a: "find (\<lambda>e. succeeds (C6_helper e)) conventions = Some THREE_LEVEL"
    by (simp add: conventions_def succeeds_def C6_helper_def ok_def)
  have b: "find (\<lambda>e. succeeds (C6_missing e)) conventions = None
             \<and> (\<exists>e. missing_field (C6_missing e))"
    by (auto simp: conventions_def succeeds_def C6_missing_def ok_def intro: exI[of _ THREE_LEVEL])
  have c: "(\<forall>e. missing_field (C6_failing e) \<longrightarrow> ok (status (C6_failing e)))
        \<and> (\<forall>e. \<not> ok (status (C6_failing e)))"
    by (auto simp: C6_failing_def ok_def split: ArrayEncoding.splits)
  have r1: "status (ResolvePath C6_helper) = Status_OK
            \<and> node (ResolvePath C6_helper) = node (C6_helper THREE_LEVEL)"
    using C6_ResolvePath_conventions[of C6_helper THREE_LEVEL] a by blast
  have r2: "status (ResolvePath C6_missing) = Status_OK \<and> node (ResolvePath C6_missing) = None
            \<and> missing_field (ResolvePath C6_missing)"
    using C6_ResolvePath_conventions[of C6_missing THREE_LEVEL] b by blast
  have r3: "status (ResolvePath C6_failing) = status (C6_failing THREE_LEVEL)
            \<and> node (ResolvePath C6_failing) = None"
    using C6_ResolvePath_conventions[of C6_failing THREE_LEVEL] c by blast
  have v: "node (C6_helper THREE_LEVEL) = Some 7"
      "status (C6_failing THREE_LEVEL) = Status_Error ''three''"
      "missing_field (C6_missing THREE_LEVEL)"
    by (simp_all add: C6_helper_def C6_failing_def C6_missing_def)
  have l: "list_all (\<lambda>e. \<not> ok (status (C6_failing e)) \<and> \<not> missing_field (C6_failing e))
             conventions"
    by (simp add: conventions_def C6_failing_def ok_def)
  from a conjunct1[OF b] r1 r2 r3 v l show ?thesis by simp
qed

subsection \<open>Level decoding\<close>

declare read_levels.simps [simp del]

lemma memset_levels_length:
  "start + n \<le> length cache \<Longrightarrow> length (memset_levels cache start v n) = length cache"
  by (simp add: memset_levels_def)

lemma memset_levels_nth:
  "start + n \<le> length cache \<Longrightarrow> i < length cache \<Longrightarrow>
     memset_levels cache start v n ! i =
       (if start \<le> i \<and> i < start + n then v mod 256 else cache ! i)"
  by (auto simp: memset_levels_def nth_append min_def)

lemma read_levels_result:
  "read_levels ops ml w nv nv_end cache br = Some (cache', br') \<Longrightarrow>
     length cache' = length cache
     \<and> (\<forall>i. i < nv \<or> nv_end \<le> i \<longrightarrow> cache' ! i = cache ! i)
     \<and> (\<forall>i. nv \<le> i \<and> i < nv_end \<and> i < length cache \<longrightarrow> cache' ! i \<le> ml)"
proof (induction ops ml w nv nv_end cache br rule: read_levels.induct)
  case (1 ops ml w nv nv_end cache br)
  show ?case
  proof (cases "nv < nv_end")
    case False
    with "1.prems" show ?thesis by (simp add: read_levels.simps)
  next
    case True
    from "1.prems" True obtain v br1 where g: "GetValue ops w br = Some (v, br1)"
      by (subst (asm) read_levels.simps) (auto split: option.splits)
    with "1.prems" True have v: "\<not> v > ml"
      by (subst (asm) read_levels.simps) (auto split: if_splits)
    with "1.prems" True g have r:
      "read_levels ops ml w (nv + 1) nv_end (cache[nv := v]) br1 = Some (cache', br')"
      by (subst (asm) read_levels.simps) simp
    from "1.IH"[OF True g refl v r]
    have IH: "length cache' = length (cache[nv := v])"
      "\<forall>i. i < nv + 1 \<or> nv_end \<le> i \<longrightarrow> cache' ! i = cache[nv := v] ! i"
      "\<forall>i. nv + 1 \<le> i \<and> i < nv_end \<and> i < length (cache[nv := v]) \<longrightarrow> cache' ! i \<le> ml"
      by blast+
    show ?thesis
    proof (intro conjI allI impI)
      show "length cache' = length cache" using IH(1) by simp
    next
      fix i assume "i < nv \<or> nv_end \<le> i"
      with True IH(2) show "cache' ! i = cache ! i" by (cases "i = nv") auto
    next
      fix i assume i: "nv \<le> i \<and> i < nv_end \<and> i < length cache"
      show "cache' ! i \<le> ml"
      proof (cases "i = nv")
        case True
        with IH(2) i v show ?thesis by simp
      next
        case False
        with i IH(3) show ?thesis by simp
      qed
    qed
  qed
qed


lemma same_shape_refl [simp]: "same_shape d d"
  by (simp add: same_shape_def)

lemma same_shape_trans: "same_shape a b \<Longrightarrow> same_shape b c \<Longrightarrow> same_shape a c"
  by (simp add: same_shape_def)

lemma FillCache_rle_body_inv:
  assumes inv: "fill_inv bs nv d"
  shows "case FillCache_rle_body ops bs nv d of
           Inl (b, n, d') \<Rightarrow> b \<longrightarrow> n = bs \<and> fill_inv bs bs d' \<and> same_shape d d'
         | Inr (nv', d') \<Rightarrow> fill_inv bs nv' d' \<and> same_shape d d'"
proof -
  define r where "r = rle d"
  define k where "k = min (repeat_count r) (bs - nv)"
  define cache1 where "cache1 = memset_levels (cached_levels d) nv (current_value r) k"
  define nv1 where "nv1 = nv + k"
  define r1 where "r1 = r\<lparr>repeat_count := repeat_count r - k\<rparr>"
  define lits where "lits = min (literal_count r1) (bs - nv1)"
  define nv_end where "nv_end = min (nv1 + literal_count r1) bs"
  have nv: "nv \<le> bs" and len: "bs \<le> length (cached_levels d)"
    and cr: "\<And>i. i < nv \<Longrightarrow> cached_levels d ! i \<le> max_level d"
    and rr: "repeat_count r > 0 \<Longrightarrow> current_value r \<le> max_level d"
    using inv by (auto simp: fill_inv_def cache_in_range_def run_in_range_def r_def)
  have nv1: "nv1 \<le> bs" "nv \<le> nv1" using nv by (auto simp: nv1_def k_def)
  have nve: "nv1 \<le> nv_end" "nv_end \<le> bs" using nv1 by (auto simp: nv_end_def)
  have fit: "nv + k \<le> length (cached_levels d)" using nv1 len by (simp add: nv1_def)
  have len1: "length cache1 = length (cached_levels d)"
    unfolding cache1_def by (rule memset_levels_length[OF fit])
  have c1: "cache1 ! i \<le> max_level d" if "i < nv1" for i
  proof -
    have il: "i < length (cached_levels d)" using that nv1 len by simp
    show ?thesis
    proof (cases "nv \<le> i")
      case True
      with that have "k > 0" by (simp add: nv1_def)
      then have "repeat_count r > 0" by (simp add: k_def)
      then have "current_value r \<le> max_level d" by (rule rr)
      moreover have "current_value r mod 256 \<le> current_value r" by simp
      ultimately show ?thesis
        using True that unfolding cache1_def
        by (simp add: memset_levels_nth[OF fit il] nv1_def)
    next
      case False
      then show ?thesis
        unfolding cache1_def using cr[of i]
        by (simp add: memset_levels_nth[OF fit il])
    qed
  qed
  have body0: "FillCache_rle_body ops bs nv d =
      (case read_levels ops (max_level d) (bit_width r1) nv1 nv_end cache1 (bit_reader r1) of
         None \<Rightarrow> Inl (False, nv1, d)
       | Some (cache, br) \<Rightarrow>
           if max nv1 nv_end = bs
           then Inl (True, max nv1 nv_end,
                  d\<lparr>rle := r1\<lparr>bit_reader := br, literal_count := literal_count r1 - lits\<rparr>,
                    cached_levels := cache\<rparr>)
           else
             (case NextCounts ops
                     (r1\<lparr>bit_reader := br, literal_count := literal_count r1 - lits\<rparr>) of
                None \<Rightarrow> Inl (False, max nv1 nv_end,
                  d\<lparr>rle := r1\<lparr>bit_reader := br, literal_count := literal_count r1 - lits\<rparr>,
                    cached_levels := cache\<rparr>)
              | Some r' \<Rightarrow>
                  if repeat_count r' > 0
                     \<and> current_value r' > max_level
                          (d\<lparr>rle := r1\<lparr>bit_reader := br,
                                          literal_count := literal_count r1 - lits\<rparr>,
                             cached_levels := cache\<rparr>)
                  then Inl (False, max nv1 nv_end,
                         d\<lparr>rle := r1\<lparr>bit_reader := br,
                                         literal_count := literal_count r1 - lits\<rparr>,
                            cached_levels := cache, rle := r'\<rparr>)
                  else Inr (max nv1 nv_end,
                         d\<lparr>rle := r1\<lparr>bit_reader := br,
                                         literal_count := literal_count r1 - lits\<rparr>,
                            cached_levels := cache, rle := r'\<rparr>)))"
    unfolding FillCache_rle_body_def Let_def r_def k_def cache1_def nv1_def r1_def lits_def
      nv_end_def
    by (rule refl)
  show ?thesis
  proof (cases "read_levels ops (max_level d) (bit_width r1) nv1 nv_end cache1 (bit_reader r1)")
    case None
    then show ?thesis by (simp add: body0)
  next
    case (Some res)
    obtain cache2 br2 where res: "res = (cache2, br2)" by (cases res)
    from read_levels_result[OF Some[unfolded res]]
    have len2: "length cache2 = length cache1"
      and keep: "\<And>i. i < nv1 \<or> nv_end \<le> i \<Longrightarrow> cache2 ! i = cache1 ! i"
      and lit: "\<And>i. nv1 \<le> i \<and> i < nv_end \<and> i < length cache1 \<Longrightarrow> cache2 ! i \<le> max_level d"
      by blast+
    define r2 where "r2 = r1\<lparr>bit_reader := br2, literal_count := literal_count r1 - lits\<rparr>"
    define d2 where "d2 = d\<lparr>rle := r2, cached_levels := cache2\<rparr>"
    have mx: "max nv1 nv_end = nv_end" using nve by simp
    have c2: "cache2 ! i \<le> max_level d" if "i < nv_end" for i
    proof (cases "i < nv1")
      case True
      with keep[of i] c1[of i] show ?thesis by simp
    next
      case False
      with that nve len len1 lit[of i] show ?thesis by simp
    qed
    have shape2: "same_shape d d2" by (simp add: same_shape_def d2_def len2 len1)
    have ml2: "max_level d2 = max_level d" by (simp add: d2_def)
    have cl2: "cached_levels d2 = cache2" by (simp add: d2_def)
    have rle2: "rle d2 = r2" by (simp add: d2_def)
    have run2: "repeat_count r2 > 0 \<Longrightarrow> current_value r2 \<le> max_level d"
      using rr by (simp add: r2_def r1_def)
    have body: "FillCache_rle_body ops bs nv d =
            (if nv_end = bs then Inl (True, nv_end, d2)
             else case NextCounts ops r2 of
                    None \<Rightarrow> Inl (False, nv_end, d2)
                  | Some r' \<Rightarrow>
                      if repeat_count r' > 0 \<and> current_value r' > max_level d
                      then Inl (False, nv_end, d2\<lparr>rle := r'\<rparr>)
                      else Inr (nv_end, d2\<lparr>rle := r'\<rparr>))"
      unfolding body0 Some res mx r2_def d2_def by (simp split: option.splits)
    show ?thesis
    proof (cases "nv_end = bs")
      case True
      have "fill_inv bs bs d2"
        unfolding fill_inv_def cache_in_range_def run_in_range_def ml2 cl2 rle2
        using True c2 len len1 len2 run2 by simp
      with True shape2 show ?thesis by (simp add: body)
    next
      case False
      show ?thesis
      proof (cases "NextCounts ops r2")
        case None
        with False show ?thesis by (simp add: body)
      next
        case (Some r')
        show ?thesis
        proof (cases "repeat_count r' > 0 \<and> current_value r' > max_level d")
          case True
          with False Some show ?thesis by (simp add: body)
        next
          case ok: False
          have "fill_inv bs nv_end (d2\<lparr>rle := r'\<rparr>)"
            unfolding fill_inv_def cache_in_range_def run_in_range_def
            using ok c2 len len1 len2 nve by (auto simp add: ml2 cl2)
          moreover have "same_shape d (d2\<lparr>rle := r'\<rparr>)"
            using shape2 by (simp add: same_shape_def)
          ultimately show ?thesis using False Some ok by (simp add: body)
        qed
      qed
    qed
  qed
qed

lemma FillCache_rle_inv_aux:
  assumes "FillCache_rle ops bs nv d = Some y"
  shows "fill_inv bs nv d \<longrightarrow> (fst y \<longrightarrow>
       fst (snd y) = bs \<and> fill_inv bs bs (snd (snd y)) \<and> same_shape d (snd (snd y)))"
proof (rule FillCache_rle.raw_induct[where P = "\<lambda>ops bs nv d y. fill_inv bs nv d \<longrightarrow> (fst y \<longrightarrow>
       fst (snd y) = bs \<and> fill_inv bs bs (snd (snd y)) \<and> same_shape d (snd (snd y)))",
       OF _ assms])
  fix rec :: "'a decoder_ops \<Rightarrow> nat \<Rightarrow> nat \<Rightarrow> 'a LevelDecoder \<Rightarrow> (bool \<times> nat \<times> 'a LevelDecoder) option"
  fix ops bs nv d y
  assume IH: "\<And>ops bs nv d y. rec ops bs nv d = Some y \<Longrightarrow>
       fill_inv bs nv d \<longrightarrow> (fst y \<longrightarrow>
       fst (snd y) = bs \<and> fill_inv bs bs (snd (snd y)) \<and> same_shape d (snd (snd y)))"
  assume hyp: "(case FillCache_rle_body ops bs nv d of
        Inl res \<Rightarrow> Some res
      | Inr (num_values', d') \<Rightarrow> rec ops bs num_values' d') = Some y"
  show "fill_inv bs nv d \<longrightarrow> (fst y \<longrightarrow>
       fst (snd y) = bs \<and> fill_inv bs bs (snd (snd y)) \<and> same_shape d (snd (snd y)))"
  proof
    assume inv: "fill_inv bs nv d"
    note bi = FillCache_rle_body_inv[OF inv, of ops]
    show "fst y \<longrightarrow> fst (snd y) = bs \<and> fill_inv bs bs (snd (snd y))
            \<and> same_shape d (snd (snd y))"
    proof (cases "FillCache_rle_body ops bs nv d")
      case (Inl res)
      with hyp have "y = res" by simp
      with bi Inl show ?thesis by (cases res) auto
    next
      case (Inr nxt)
      obtain nv' d1 where nxt: "nxt = (nv', d1)" by (cases nxt)
      with Inr hyp have rec: "rec ops bs nv' d1 = Some y" by simp
      from bi Inr nxt have i1: "fill_inv bs nv' d1" "same_shape d d1" by auto
      from IH[OF rec] i1(1)
      have "fst y \<longrightarrow> fst (snd y) = bs \<and> fill_inv bs bs (snd (snd y))
              \<and> same_shape d1 (snd (snd y))" by simp
      with i1(2) show ?thesis by (auto intro: same_shape_trans)
    qed
  qed
qed

lemma FillCache_rle_inv:
  assumes "FillCache_rle ops bs nv d = Some (True, n, d')" and "fill_inv bs nv d"
  shows "n = bs \<and> fill_inv bs bs d' \<and> same_shape d d'"
  using FillCache_rle_inv_aux[OF assms(1)] assms(2) by simp


lemma FillCache_inv:
  assumes "FillCache ops bs d = Some (True, d')"
    and "bs \<le> length (cached_levels d)" and "run_in_range d"
  shows "num_cached_levels d' = bs \<and> cache_in_range d' bs \<and> run_in_range d'
         \<and> same_shape d d'"
proof (cases "encoding d = RLE")
  case True
  have inv0: "fill_inv bs 0 d"
    using assms(2,3) by (simp add: fill_inv_def cache_in_range_def)
  from assms(1) True obtain n d1 where
    r: "FillCache_rle ops bs 0 d = Some (True, n, d1)" and d': "d' = d1\<lparr>num_cached_levels := n\<rparr>"
    by (auto simp: FillCache_def split: option.splits bool.splits)
  from FillCache_rle_inv[OF r inv0] have "n = bs" "fill_inv bs bs d1" "same_shape d d1"
    by simp_all
  then show ?thesis
    by (simp add: d' fill_inv_def cache_in_range_def run_in_range_def same_shape_def)
next
  case False
  from assms(1) False obtain cache' br' where
    r: "read_levels ops (max_level d) 1 0 bs (cached_levels d) (bit_reader (rle d))
          = Some (cache', br')"
    and d': "d' = d\<lparr>rle := (rle d)\<lparr>bit_reader := br'\<rparr>, cached_levels := cache',
                    num_cached_levels := bs\<rparr>"
    by (auto simp: FillCache_def split: option.splits)
  from read_levels_result[OF r] assms(2)
  have "length cache' = length (cached_levels d)" "\<forall>i < bs. cache' ! i \<le> max_level d"
    by auto
  with assms(3) show ?thesis
    by (simp add: d' cache_in_range_def run_in_range_def same_shape_def)
qed

lemma CacheNextBatch_levels:
  assumes "CacheNextBatch ops bs d = Some (Inr d')" and "decoder_ready d bs"
  shows "num_cached_levels d' = bs \<and> cached_level_idx d' = 0 \<and> cache_in_range d' bs
         \<and> decoder_ready d' bs \<and> max_level d' = max_level d"
proof (cases "max_level d > 0")
  case True
  let ?d0 = "d\<lparr>cached_level_idx := 0\<rparr>"
  from assms(1) True have f: "FillCache ops bs ?d0 = Some (True, d')"
    by (auto simp: CacheNextBatch_def Let_def split: option.splits bool.splits)
  have "bs \<le> length (cached_levels ?d0)" "run_in_range ?d0"
    using assms(2) by (simp_all add: decoder_ready_def run_in_range_def)
  from FillCache_inv[OF f this] True show ?thesis
    using assms(2) by (simp add: same_shape_def decoder_ready_def)
next
  case False
  with assms(1) have d': "d' = d\<lparr>cached_level_idx := 0, num_cached_levels := bs\<rparr>"
    by (simp add: CacheNextBatch_def Let_def)
  from False assms(2) show ?thesis
    by (simp add: d' decoder_ready_def cache_in_range_def run_in_range_def)
qed

lemma CacheGetNext_level:
  assumes "cached_level_idx d < num_cached_levels d"
    and "cache_in_range d (num_cached_levels d)"
  shows "fst (CacheGetNext d) \<le> max_level d
         \<and> cache_in_range (snd (CacheGetNext d)) (num_cached_levels (snd (CacheGetNext d)))
         \<and> max_level (snd (CacheGetNext d)) = max_level d"
  using assms by (simp add: CacheGetNext_def cache_in_range_def)

lemma ReadLevel_RLE:
  "encoding d = RLE \<Longrightarrow>
     fst (ReadLevel ops d) = (case Get ops (rle d) of None \<Rightarrow> INVALID_LEVEL
                                                   | Some (v, r) \<Rightarrow> int v)"
  by (simp add: ReadLevel_def split: option.splits)

text \<open>
  Claim C3. Every level that the decoder hands out lies between 0 and max_level, and
  decoding fails when a level above max_level is decoded or the stream runs out. The batch
  path keeps this: after CacheNextBatch has returned OK, the batch_size levels in the cache
  are within max_level, and so is every level that CacheGetNext takes from it (levels are
  unsigned, so 0 is a lower bound throughout). The single-value path does not: ReadLevel
  returns the value of the run-length decoder as it is, INVALID_LEVEL (-1) when there is
  none, and never compares it with max_level. For a decoder with max_level 2 in front of a
  repeated run of the value 3, ReadLevel returns 3, while CacheNextBatch on the same input
  reports the decoding error.
\<close>

theorem C3_level_range:
  "(decoder_ready d bs \<and> CacheNextBatch ops bs d = Some (Inr d') \<longrightarrow>
      num_cached_levels d' = bs \<and> cached_level_idx d' = 0
      \<and> (\<forall>i < bs. cached_levels d' ! i \<le> max_level d')
      \<and> max_level d' = max_level d \<and> decoder_ready d' bs)
   \<and> (cached_level_idx c < num_cached_levels c \<and> cache_in_range c (num_cached_levels c) \<longrightarrow>
        fst (CacheGetNext c) \<le> max_level c
        \<and> cache_in_range (snd (CacheGetNext c)) (num_cached_levels (snd (CacheGetNext c))))
   \<and> (encoding e = RLE \<longrightarrow>
        fst (ReadLevel ops e) = (case Get ops (rle e) of None \<Rightarrow> INVALID_LEVEL
                                                      | Some (v, r) \<Rightarrow> int v))
   \<and> max_level (C3_decoder [2, 3]) = 2
   \<and> fst (ReadLevel C3_ops (C3_decoder [2, 3])) = 3
   \<and> CacheNextBatch C3_ops 3 (C3_decoder [2, 3]) = Some (Inl LevelDecodingError)"
proof (intro conjI impI)
  show "max_level (C3_decoder [2, 3]) = 2" by (simp add: C3_decoder_def)
next
  show "fst (ReadLevel C3_ops (C3_decoder [2, 3])) = 3"
    by (simp add: ReadLevel_def C3_ops_def C3_Get_def C3_NextCounts_def C3_decoder_def)
next
  show "CacheNextBatch C3_ops 3 (C3_decoder [2, 3]) = Some (Inl LevelDecodingError)"
    by code_simp
next
  assume h: "decoder_ready d bs \<and> CacheNextBatch ops bs d = Some (Inr d')"
  from CacheNextBatch_levels[OF conjunct2[OF h] conjunct1[OF h]]
  show "num_cached_levels d' = bs" "cached_level_idx d' = 0"
    "\<forall>i < bs. cached_levels d' ! i \<le> max_level d'" "max_level d' = max_level d"
    "decoder_ready d' bs"
    by (auto simp: cache_in_range_def)
next
  assume h: "cached_level_idx c < num_cached_levels c \<and> cache_in_range c (num_cached_levels c)"
  from CacheGetNext_level[OF conjunct1[OF h] conjunct2[OF h]]
  show "fst (CacheGetNext c) \<le> max_level c"
    "cache_in_range (snd (CacheGetNext c)) (num_cached_levels (snd (CacheGetNext c)))"
    by simp_all
next
  assume "encoding e = RLE"
  then show "fst (ReadLevel ops e) = (case Get ops (rle e) of None \<Rightarrow> INVALID_LEVEL
                                                      | Some (v, r) \<Rightarrow> int v)"
    by (rule ReadLevel_RLE)
qed

text \<open>
  The two paths on the same page: levels 1, 1, 2 are cached; in front of a run of the
  value 3 the batch path fails and \<^verbatim>\<open>ReadLevel\<close> returns 3, above the maximum 2.
\<close>

theorem C3_witness:
  "decoder_ready (C3_decoder [2, 1, 5, 2]) 3
   \<and> map_option (map_sum id (\<lambda>d. take 3 (cached_levels d)))
        (CacheNextBatch C3_ops 3 (C3_decoder [2, 1, 5, 2])) = Some (Inr [1, 1, 2])
   \<and> encoding (C3_decoder [2, 3]) = RLE
   \<and> max_level (C3_decoder [2, 3]) = 2
   \<and> Get C3_ops (rle (C3_decoder [2, 3])) \<noteq> None
   \<and> fst (ReadLevel C3_ops (C3_decoder [2, 3])) = 3
   \<and> CacheNextBatch C3_ops 3 (C3_decoder [2, 3]) = Some (Inl LevelDecodingError)"
proof -
  have r: "decoder_ready (C3_decoder [2, 1, 5, 2]) 3"
    by (simp add: decoder_ready_def C3_decoder_def run_in_range_def)
  have e: "encoding (C3_decoder [2, 3]) = RLE" "max_level (C3_decoder [2, 3]) = 2"
    by (simp_all add: C3_decoder_def)
  have g: "Get C3_ops (rle (C3_decoder [2, 3]))
             = Some (3, \<lparr>bit_reader = [], bit_width = 2, current_value = 3,
                        repeat_count = 1, literal_count = 0\<rparr>)"
    by (simp add: C3_ops_def C3_Get_def C3_NextCounts_def C3_decoder_def)
  have f: "CacheNextBatch C3_ops 3 (C3_decoder [2, 3]) = Some (Inl LevelDecodingError)"
    by code_simp
  note t = C3_level_range[of "C3_decoder [2, 1, 5, 2]" 3 C3_ops _ _ "C3_decoder [2, 3]"]
  from conjunct1[OF conjunct2[OF conjunct2[OF t]]] e(1) g
  have rl: "fst (ReadLevel C3_ops (C3_decoder [2, 3])) = 3" by simp
  have c: "map_option (map_sum id (\<lambda>d. take 3 (cached_levels d)))
        (CacheNextBatch C3_ops 3 (C3_decoder [2, 1, 5, 2])) = Some (Inr [1, 1, 2])"
    by code_simp
  have n: "Get C3_ops (rle (C3_decoder [2, 3])) \<noteq> None" using g by simp
  from r c e n rl f show ?thesis by (intro conjI)
qed

end
